theory Spec2Isabelle
  imports Complex_Main "HOL-Library.AList" "HOL-Library.Sublist"
begin

section \<open>The remote store: server.py\<close>

text \<open>
  The server keeps its items in the directory tree below \<open>STORAGE_DIR\<close>. A location is
  the list of path segments below \<open>STORAGE_DIR\<close> (the empty list is \<open>STORAGE_DIR\<close>
  itself), for request paths that are relative and have no \<open>..\<close> segment. The tree is a
  partial map from locations to nodes; file contents are byte strings.
\<close>

type_synonym path = "string list"

datatype node = File string | Dir

type_synonym store = "path \<rightharpoonup> node"

datatype os_error = FileNotFoundError | FileExistsError | NotADirectoryError | IsADirectoryError

text \<open>\<open>STORAGE_DIR.mkdir(exist_ok=True)\<close> at import time: the root exists.\<close>

definition init_store :: store where
  "init_store = Map.empty([] \<mapsto> Dir)"

definition exists_path :: "store \<Rightarrow> path \<Rightarrow> bool" where
  "exists_path s p = (s p \<noteq> None)"

definition is_dir :: "store \<Rightarrow> path \<Rightarrow> bool" where
  "is_dir s p = (s p = Some Dir)"

definition is_file :: "store \<Rightarrow> path \<Rightarrow> bool" where
  "is_file s p = (case s p of Some (File c) \<Rightarrow> True | _ \<Rightarrow> False)"

text \<open>
  Every item of a directory tree lies in a directory: the root is a directory and the
  parent of every present location is one.
\<close>

definition wf_store :: "store \<Rightarrow> bool" where
  "wf_store s = (s [] = Some Dir \<and> (\<forall>p. p \<noteq> [] \<and> s p \<noteq> None \<longrightarrow> s (butlast p) = Some Dir))"

text \<open>Some location on the way to \<open>p\<close> (or \<open>p\<close> itself) is a regular file.\<close>

definition file_above :: "store \<Rightarrow> path \<Rightarrow> bool" where
  "file_above s p = list_ex (is_file s) (prefixes p)"

text \<open>The tree with every missing location on the way to \<open>p\<close> made a directory.\<close>

definition with_dirs :: "path \<Rightarrow> store \<Rightarrow> store" where
  "with_dirs p s = (\<lambda>r. if prefix r p \<and> s r = None then Some Dir else s r)"

text \<open>
  The kernel resolves the directories leading to a location from the root downward:
  the first one that is missing gives ENOENT, the first one that is a regular file
  gives ENOTDIR.
\<close>

fun resolve_dirs :: "store \<Rightarrow> path \<Rightarrow> path \<Rightarrow> os_error option" where
  "resolve_dirs s cur [] =
     (case s cur of None \<Rightarrow> Some FileNotFoundError
      | Some (File c) \<Rightarrow> Some NotADirectoryError
      | Some Dir \<Rightarrow> None)"
| "resolve_dirs s cur (seg # rest) =
     (case s cur of None \<Rightarrow> Some FileNotFoundError
      | Some (File c) \<Rightarrow> Some NotADirectoryError
      | Some Dir \<Rightarrow> resolve_dirs s (cur @ [seg]) rest)"

text \<open>
  \<open>os.mkdir(p)\<close>: the error raised, if any, and the tree afterwards. The directory
  that holds \<open>STORAGE_DIR\<close> is the working directory, which exists: for the root
  location nothing has to be resolved, and a root that has been removed is made again.
\<close>

definition os_mkdir :: "path \<Rightarrow> store \<Rightarrow> os_error option \<times> store" where
  "os_mkdir p s =
     (case (if p = [] then None else resolve_dirs s [] (butlast p)) of
        Some e \<Rightarrow> (Some e, s)
      | None \<Rightarrow>
          if s p \<noteq> None then (Some FileExistsError, s)
          else (None, s(p \<mapsto> Dir)))"

text \<open>
  \<open>Path.mkdir(parents, exist_ok)\<close> of pathlib:
  \<^verbatim>\<open>
    try: os.mkdir(self, mode)
    except FileNotFoundError:
        if not parents or self.parent == self: raise
        self.parent.mkdir(parents=True, exist_ok=True)
        self.mkdir(mode, parents=False, exist_ok=exist_ok)
    except OSError:
        if not exist_ok or not self.is_dir(): raise
  \<close>
\<close>

function path_mkdir :: "bool \<Rightarrow> bool \<Rightarrow> path \<Rightarrow> store \<Rightarrow> os_error option \<times> store" where
  "path_mkdir parents exist_ok p s =
     (case os_mkdir p s of
        (None, s1) \<Rightarrow> (None, s1)
      | (Some FileNotFoundError, s1) \<Rightarrow>
          if \<not> parents \<or> p = [] then (Some FileNotFoundError, s1)
          else (case path_mkdir True True (butlast p) s1 of
                  (Some e, s2) \<Rightarrow> (Some e, s2)
                | (None, s2) \<Rightarrow> path_mkdir False exist_ok p s2)
      | (Some e, s1) \<Rightarrow>
          if \<not> exist_ok \<or> \<not> is_dir s1 p then (Some e, s1) else (None, s1))"
  by pat_completeness auto
termination
  by (relation "measures [\<lambda>(parents, exist_ok, p, s). length p,
                          \<lambda>(parents, exist_ok, p, s). if parents then 1 else 0]") auto

declare path_mkdir.simps [simp del]

text \<open>
  \<open>file_location.parent.mkdir(parents=True, exist_ok=True)\<close>. The parent of
  \<open>STORAGE_DIR\<close> itself is the working directory, which exists.
\<close>

definition parent_mkdir :: "path \<Rightarrow> store \<Rightarrow> os_error option \<times> store" where
  "parent_mkdir file_path s =
     (if file_path = [] then (None, s) else path_mkdir True True (butlast file_path) s)"

text \<open>Opening for writing (\<open>'wb'\<close>) and writing the content.\<close>

definition open_wb :: "path \<Rightarrow> string \<Rightarrow> store \<Rightarrow> os_error option \<times> store" where
  "open_wb p content s =
     (case (if p = [] then None else resolve_dirs s [] (butlast p)) of
        Some e \<Rightarrow> (Some e, s)
      | None \<Rightarrow>
          if s p = Some Dir then (Some IsADirectoryError, s)
          else (None, s(p \<mapsto> File content)))"

text \<open>
  \<open>upload_file(file_path, file, is_directory)\<close>: the status code of the response and the
  tree afterwards. The whole body is inside \<open>try ... except Exception\<close>, which turns
  every exception, the handler's own \<open>HTTPException(400)\<close> included, into a 500.
\<close>

definition upload_file :: "path \<Rightarrow> string option \<Rightarrow> bool \<Rightarrow> store \<Rightarrow> nat \<times> store" where
  "upload_file file_path file is_directory s =
     (case parent_mkdir file_path s of
        (Some e, s1) \<Rightarrow> (500, s1)
      | (None, s1) \<Rightarrow>
          if is_directory then
            (case path_mkdir False True file_path s1 of
               (Some e, s2) \<Rightarrow> (500, s2)
             | (None, s2) \<Rightarrow> (200, s2))
          else
            (case file of
               None \<Rightarrow> (500, s1)
             | Some content \<Rightarrow>
                 (case open_wb file_path content s1 of
                    (Some e, s2) \<Rightarrow> (500, s2)
                  | (None, s2) \<Rightarrow> (200, s2))))"

text \<open>\<open>shutil.rmtree\<close> removes a location and everything below it.\<close>

definition rmtree :: "path \<Rightarrow> store \<Rightarrow> store" where
  "rmtree p s = (\<lambda>q. if prefix p q then None else s q)"

definition unlink :: "path \<Rightarrow> store \<Rightarrow> store" where
  "unlink p s = s(p := None)"

text \<open>\<open>delete_file(file_path)\<close>: the 404 is raised before the \<open>try\<close>.\<close>

definition delete_file :: "path \<Rightarrow> store \<Rightarrow> nat \<times> store" where
  "delete_file file_path s =
     (if \<not> exists_path s file_path then (404, s)
      else if is_file s file_path then (200, unlink file_path s)
      else (200, rmtree file_path s))"

section \<open>The HTTP interface between client and server\<close>

text \<open>
  An entry of the listing that \<open>GET /files\<close> returns: \<open>path\<close>, \<open>is_directory\<close>,
  \<open>size\<close>, \<open>modified\<close>. Modification times are the numbers the file system reports,
  taken as reals.
\<close>

datatype item = Item (item_path: string) (item_is_directory: bool) (item_size: nat)
  (item_modified: real)

text \<open>
  The three requests the client sends: \<open>requests.get(.../files)\<close>,
  \<open>requests.post(.../upload/<path>, ...)\<close> with either \<open>files={'file': f}\<close> (the
  content read from the file) or \<open>data={'is_directory': 'true'}\<close>, and
  \<open>requests.delete(.../delete/<path>)\<close>.
\<close>

datatype request = Get_files | Post_upload string "string option" bool | Delete_path string

text \<open>
  What the client gets back: a response with its \<open>status_code\<close> and the decoded JSON
  listing (empty for the other requests), or an exception raised by \<open>requests\<close>
  (connection refused, timeout).
\<close>

datatype reply = Response nat "item list" | Request_exception

text \<open>
  The remote end, as the client sees it: any state machine that answers requests. The
  functions of the client take it as a parameter, so that what is proved of them holds
  whatever the remote end answers.
\<close>

type_synonym 's remote = "'s \<Rightarrow> request \<Rightarrow> reply \<times> 's"

text \<open>
  \<open>Path(s).parts\<close> of a relative path string: the segments between slashes, without
  the empty ones and the \<open>.\<close> ones.
\<close>

fun split_slash :: "string \<Rightarrow> string list" where
  "split_slash [] = [[]]"
| "split_slash (c # cs) =
     (if c = CHR ''/'' then [] # split_slash cs
      else (case split_slash cs of [] \<Rightarrow> [[c]] | w # ws \<Rightarrow> (c # w) # ws))"

definition path_parts :: "string \<Rightarrow> path" where
  "path_parts str = filter (\<lambda>seg. seg \<noteq> [] \<and> seg \<noteq> ''.'') (split_slash str)"

text \<open>
  server.py and server_with_ngrok.py have the same four handlers; FastAPI routes the
  request to them with the rest of the URL as \<open>file_path\<close>. The listing that
  \<open>list_files\<close> computes (the order of the walk, sizes and modification times) only
  reads the tree; it is the parameter \<open>ls\<close>.
\<close>

fun server :: "(store \<Rightarrow> item list) \<Rightarrow> store remote" where
  "server ls s Get_files = (Response 200 (ls s), s)"
| "server ls s (Post_upload file_path file is_directory) =
     (case upload_file (path_parts file_path) file is_directory s of
        (code, s') \<Rightarrow> (Response code [], s'))"
| "server ls s (Delete_path file_path) =
     (case delete_file (path_parts file_path) s of
        (code, s') \<Rightarrow> (Response code [], s'))"

section \<open>The client: client.py\<close>

text \<open>What the client prints.\<close>

datatype message =
    Created_folder string
  | Failed_to_create_folder string
  | Error_creating_folder
  | Synchronized string
  | Upload_error string
  | Error_uploading_file
  | Deleted string
  | Error_deleting string
  | Error_not_within_sync_folder
  | Starting_synchronization
  | Error_server_file_list
  | Creating_directory string
  | Synchronization_complete
  | Error_during_synchronization

text \<open>A run of the client is the sequence of requests it sent and lines it printed.\<close>

datatype event = Call request reply | Print message




text \<open>
  Local paths are lists of segments too. \<open>p.relative_to(base)\<close> raises \<open>ValueError\<close>
  (here \<open>None\<close>) unless \<open>p\<close> lies under \<open>base\<close>.
\<close>

definition relative_to :: "path \<Rightarrow> path \<Rightarrow> path option" where
  "relative_to p base = (if prefix base p then Some (drop (length base) p) else None)"

fun join_slash :: "string list \<Rightarrow> string" where
  "join_slash [] = []"
| "join_slash [seg] = seg"
| "join_slash (seg # segs) = seg @ ''/'' @ join_slash segs"

text \<open>
  \<open>str(rel).replace('\\', '/')\<close>: the text of a relative path with forward slashes;
  the empty relative path prints as a dot.
\<close>

definition rel_str :: "path \<Rightarrow> string" where
  "rel_str rel =
     (if rel = [] then ''.''
      else map (\<lambda>c. if c = CHR 0x5C then CHR ''/'' else c) (join_slash rel))"

definition lstrip_slash :: "string \<Rightarrow> string" where
  "lstrip_slash str = dropWhile (\<lambda>c. c = CHR ''/'') str"

text \<open>
  What the client reads of the local file system while it handles one path: whether a
  path exists and what it is, the walk \<open>rglob("*")\<close> below it (\<open>None\<close> when the walk
  raises), and what
  \<open>open(p, 'rb')\<close> gives at each attempt (the file may be locked, or gone, at one
  attempt and readable at the next), and the modification time \<open>stat().st_mtime\<close>
  (\<open>None\<close> when \<open>stat\<close> raises).
\<close>

datatype open_result = Opened string | Raises_PermissionError | Raises_FileNotFoundError
  | Raises_other

record local_fs =
  l_exists :: "path \<Rightarrow> bool"
  l_is_dir :: "path \<Rightarrow> bool"
  l_is_file :: "path \<Rightarrow> bool"
  l_rglob :: "path \<Rightarrow> path list option"
  l_open :: "path \<Rightarrow> nat \<Rightarrow> open_result"
  l_mtime :: "path \<Rightarrow> real option"

text \<open>
  The loop of \<open>_create_folder\<close>: one request per part, \<open>cur\<close> growing by one segment
  each time; the first answer that is not 200 ends it, and so does an exception.
\<close>

definition next_cur :: "string \<Rightarrow> string \<Rightarrow> string" where
  "next_cur cur part = lstrip_slash (cur @ ''/'' @ part)"

fun create_folder_parts :: "'s remote \<Rightarrow> string \<Rightarrow> string list \<Rightarrow> 's \<Rightarrow> event list \<times> 's" where
  "create_folder_parts srv cur [] s = ([], s)"
| "create_folder_parts srv cur (part # parts) s =
     (let req = Post_upload (next_cur cur part) None True in
      case srv s req of
        (Request_exception, s') \<Rightarrow> ([Call req Request_exception, Print Error_creating_folder], s')
      | (Response code body, s') \<Rightarrow>
          if code = 200 then
            (case create_folder_parts srv (next_cur cur part) parts s' of
               (out, s'') \<Rightarrow>
                 (Call req (Response code body) # Print (Created_folder (next_cur cur part)) # out, s''))
          else
            ([Call req (Response code body), Print (Failed_to_create_folder (next_cur cur part))], s'))"

definition create_folder :: "'s remote \<Rightarrow> path \<Rightarrow> path \<Rightarrow> 's \<Rightarrow> event list \<times> 's" where
  "create_folder srv sync_folder p s =
     (case relative_to p sync_folder of
        None \<Rightarrow> ([Print Error_creating_folder], s)
      | Some rel \<Rightarrow> create_folder_parts srv [] (path_parts (rel_str rel)) s)"

text \<open>
  The loop of \<open>_upload_file\<close> over \<open>range(3)\<close>. A file that cannot be opened
  (\<open>PermissionError\<close>, \<open>FileNotFoundError\<close>) is tried again after a pause; any other
  exception is printed and ends the loop; a 200 ends the function; after any other
  status the \<open>with\<close> block is left and the loop goes on to the next attempt.
\<close>

fun upload_attempts ::
  "'s remote \<Rightarrow> (nat \<Rightarrow> open_result) \<Rightarrow> string \<Rightarrow> nat list \<Rightarrow> 's \<Rightarrow> event list \<times> 's" where
  "upload_attempts srv opn rel [] s = ([], s)"
| "upload_attempts srv opn rel (attempt # rest) s =
     (case opn attempt of
        Raises_PermissionError \<Rightarrow> upload_attempts srv opn rel rest s
      | Raises_FileNotFoundError \<Rightarrow> upload_attempts srv opn rel rest s
      | Raises_other \<Rightarrow> ([Print (Upload_error rel)], s)
      | Opened content \<Rightarrow>
          (let req = Post_upload rel (Some content) False in
           case srv s req of
             (Request_exception, s') \<Rightarrow> ([Call req Request_exception, Print (Upload_error rel)], s')
           | (Response code body, s') \<Rightarrow>
               if code = 200 then ([Call req (Response code body), Print (Synchronized rel)], s')
               else (case upload_attempts srv opn rel rest s' of
                       (out, s'') \<Rightarrow> (Call req (Response code body) # out, s''))))"

definition client_upload_file :: "'s remote \<Rightarrow> local_fs \<Rightarrow> path \<Rightarrow> path \<Rightarrow> 's \<Rightarrow> event list \<times> 's" where
  "client_upload_file srv lfs sync_folder p s =
     (case relative_to p sync_folder of
        None \<Rightarrow> ([Print Error_uploading_file], s)
      | Some rel \<Rightarrow> upload_attempts srv (l_open lfs p) (rel_str rel) [0, 1, 2] s)"

text \<open>\<open>_delete_path\<close>: one request; only a 200 is printed, any other status is ignored.\<close>

definition delete_path :: "'s remote \<Rightarrow> string \<Rightarrow> 's \<Rightarrow> event list \<times> 's" where
  "delete_path srv rel s =
     (case srv s (Delete_path rel) of
        (Request_exception, s') \<Rightarrow>
          ([Call (Delete_path rel) Request_exception, Print (Error_deleting rel)], s')
      | (Response code body, s') \<Rightarrow>
          if code = 200 then ([Call (Delete_path rel) (Response code body), Print (Deleted rel)], s')
          else ([Call (Delete_path rel) (Response code body)], s'))"

text \<open>
  \<open>_handle_child\<close>, and the children of a directory. The source starts one thread per
  child and joins them all; here the children are handled one after the other, in the
  order of the walk.
\<close>

definition handle_child :: "'s remote \<Rightarrow> local_fs \<Rightarrow> path \<Rightarrow> path \<Rightarrow> 's \<Rightarrow> event list \<times> 's" where
  "handle_child srv lfs sync_folder child s =
     (if l_is_file lfs child then client_upload_file srv lfs sync_folder child s
      else if l_is_dir lfs child then create_folder srv sync_folder child s
      else ([], s))"

fun handle_children :: "'s remote \<Rightarrow> local_fs \<Rightarrow> path \<Rightarrow> path list \<Rightarrow> 's \<Rightarrow> event list \<times> 's" where
  "handle_children srv lfs sync_folder [] s = ([], s)"
| "handle_children srv lfs sync_folder (child # children) s =
     (case handle_child srv lfs sync_folder child s of
        (out, s') \<Rightarrow>
          (case handle_children srv lfs sync_folder children s' of
             (rest_out, s'') \<Rightarrow> (out @ rest_out, s'')))"

text \<open>\<open>watchfiles.Change\<close>.\<close>

datatype Change = added | modified | deleted

text \<open>
  \<open>_handle_event(change, path)\<close>. It runs in a thread of its own; the only exception it
  catches itself is the one of \<open>relative_to\<close>. The helpers it calls catch theirs, the
  walk \<open>p.rglob("*")\<close> does not, so the result says whether the handler returned or
  raised, besides what it sent and printed.
\<close>

datatype completion = Returns | Raises

definition handle_event ::
  "'s remote \<Rightarrow> local_fs \<Rightarrow> path \<Rightarrow> Change \<Rightarrow> path \<Rightarrow> 's \<Rightarrow> completion \<times> event list \<times> 's" where
  "handle_event srv lfs sync_folder change p s =
     (case relative_to p sync_folder of
        None \<Rightarrow> (Returns, [], s)
      | Some rel \<Rightarrow>
          if change = added \<or> change = modified then
            (if l_exists lfs p then
               (if l_is_dir lfs p then
                  (case create_folder srv sync_folder p s of
                     (out, s') \<Rightarrow>
                       (case l_rglob lfs p of
                          None \<Rightarrow> (Raises, out, s')
                        | Some children \<Rightarrow>
                            (case handle_children srv lfs sync_folder children s' of
                               (rest_out, s'') \<Rightarrow> (Returns, out @ rest_out, s''))))
                else (case client_upload_file srv lfs sync_folder p s of
                        (out, s') \<Rightarrow> (Returns, out, s')))
             else (Returns, [], s))
          else if change = deleted then
            (case delete_path srv (rel_str rel) s of (out, s') \<Rightarrow> (Returns, out, s'))
          else (Returns, [], s))"





text \<open>
  What a run of \<open>_upload_file\<close> shows: a request answered with a status other than
  200, the requests of a run in order, and the uploads the loop has to offer, one for
  each attempt at which the file opens, up to the first attempt at which opening it
  raises another exception than the two that are tried again.
\<close>

fun call_rejected :: "event \<Rightarrow> bool" where
  "call_rejected (Call r (Response code body)) = (code \<noteq> 200)"
| "call_rejected (Call r Request_exception) = False"
| "call_rejected (Print m) = False"

fun requests :: "event list \<Rightarrow> request list" where
  "requests [] = []"
| "requests (Call r a # evs) = r # requests evs"
| "requests (Print m # evs) = requests evs"



section \<open>Reconciliation: \<open>force_sync\<close> of client.py\<close>

text \<open>
  \<open>str(path)\<close> of an absolute local path, and the test
  \<open>str(path).startswith(str(self.sync_folder))\<close>, which compares texts. With no path
  given, the sync folder itself is walked.
\<close>

definition path_text :: "path \<Rightarrow> string" where
  "path_text p = (if p = [] then ''/'' else concat (map ((#) CHR ''/'') p))"

definition sync_root :: "path \<Rightarrow> path option \<Rightarrow> path option" where
  "sync_root sync_folder path =
     (case path of
        None \<Rightarrow> Some sync_folder
      | Some q \<Rightarrow> if prefix (path_text sync_folder) (path_text q) then Some q else None)"

text \<open>
  The dictionary \<open>local_files\<close>, built from the walk: an item that is not under the
  sync folder, or whose \<open>stat\<close> raises, is skipped; an item that does not exist any
  more gets the time 0.
\<close>

type_synonym local_files = "(string \<times> bool \<times> real) list"

definition add_local :: "local_fs \<Rightarrow> path \<Rightarrow> path \<Rightarrow> local_files \<Rightarrow> local_files" where
  "add_local lfs sync_folder item lf =
     (case relative_to item sync_folder of
        None \<Rightarrow> lf
      | Some rel \<Rightarrow>
          if l_exists lfs item then
            (case l_mtime lfs item of
               None \<Rightarrow> lf
             | Some m \<Rightarrow> AList.update (rel_str rel) (l_is_dir lfs item, m) lf)
          else AList.update (rel_str rel) (l_is_dir lfs item, 0) lf)"

definition local_files :: "local_fs \<Rightarrow> path \<Rightarrow> path list \<Rightarrow> local_files" where
  "local_files lfs sync_folder walk = fold (add_local lfs sync_folder) walk []"

text \<open>\<open>server_files = {item['path']: item for item in response.json()}\<close>.\<close>

definition server_files :: "item list \<Rightarrow> (string \<times> item) list" where
  "server_files items = fold (\<lambda>item. AList.update (item_path item) item) items []"

text \<open>
  The first loop: a local directory that the listing does not have is created, through
  \<open>_create_folder(self.sync_folder / rel_path)\<close>.
\<close>

fun sync_dirs ::
  "'s remote \<Rightarrow> path \<Rightarrow> (string \<times> item) list \<Rightarrow> local_files \<Rightarrow> 's \<Rightarrow> event list \<times> 's" where
  "sync_dirs srv sync_folder sf [] s = ([], s)"
| "sync_dirs srv sync_folder sf ((rel_path, is_directory, mtime) # lf) s =
     (if is_directory \<and> map_of sf rel_path = None then
        (case create_folder srv sync_folder (sync_folder @ path_parts rel_path) s of
           (out, s') \<Rightarrow>
             (case sync_dirs srv sync_folder sf lf s' of
                (rest_out, s'') \<Rightarrow> (Print (Creating_directory rel_path) # out @ rest_out, s'')))
      else sync_dirs srv sync_folder sf lf s)"

text \<open>
  The test of the second loop:
  \<open>not server_info or server_info.get('modified', 0) < info['modified']\<close>, for an entry
  that is not a directory.
\<close>

definition needs_upload :: "(string \<times> item) list \<Rightarrow> string \<times> bool \<times> real \<Rightarrow> bool" where
  "needs_upload sf entry =
     (case entry of (rel_path, is_directory, mtime) \<Rightarrow>
        \<not> is_directory \<and>
        (case map_of sf rel_path of
           None \<Rightarrow> True
         | Some server_info \<Rightarrow> item_modified server_info < mtime))"

text \<open>
  The second loop starts one thread running \<open>_upload_file(self.sync_folder / rel_path)\<close>
  per file that needs it, and joins them; here the uploads run one after the other, in
  the order in which the threads are started.
\<close>

fun sync_files ::
  "'s remote \<Rightarrow> local_fs \<Rightarrow> path \<Rightarrow> (string \<times> item) list \<Rightarrow> local_files \<Rightarrow> 's \<Rightarrow> event list \<times> 's" where
  "sync_files srv lfs sync_folder sf [] s = ([], s)"
| "sync_files srv lfs sync_folder sf (entry # lf) s =
     (if needs_upload sf entry then
        (case client_upload_file srv lfs sync_folder (sync_folder @ path_parts (fst entry)) s of
           (out, s') \<Rightarrow>
             (case sync_files srv lfs sync_folder sf lf s' of
                (rest_out, s'') \<Rightarrow> (out @ rest_out, s'')))
      else sync_files srv lfs sync_folder sf lf s)"

text \<open>\<open>force_sync(path)\<close>.\<close>

definition force_sync ::
  "'s remote \<Rightarrow> local_fs \<Rightarrow> path \<Rightarrow> path option \<Rightarrow> 's \<Rightarrow> event list \<times> 's" where
  "force_sync srv lfs sync_folder path s =
     (case sync_root sync_folder path of
        None \<Rightarrow> ([Print Error_not_within_sync_folder], s)
      | Some walk_root \<Rightarrow>
          (case srv s Get_files of
             (Request_exception, s1) \<Rightarrow>
               ([Print Starting_synchronization, Call Get_files Request_exception,
                 Print Error_during_synchronization], s1)
           | (Response code listing, s1) \<Rightarrow>
               if code \<noteq> 200 then
                 ([Print Starting_synchronization, Call Get_files (Response code listing),
                   Print Error_server_file_list], s1)
               else
                 (case l_rglob lfs walk_root of
                    None \<Rightarrow>
                      ([Print Starting_synchronization, Call Get_files (Response code listing),
                        Print Error_during_synchronization], s1)
                  | Some walk \<Rightarrow>
                      (case sync_dirs srv sync_folder (server_files listing)
                              (local_files lfs sync_folder walk) s1 of
                         (out1, s2) \<Rightarrow>
                           (case sync_files srv lfs sync_folder (server_files listing)
                                   (local_files lfs sync_folder walk) s2 of
                              (out2, s3) \<Rightarrow>
                                ([Print Starting_synchronization,
                                  Call Get_files (Response code listing)]
                                 @ out1 @ out2 @ [Print Synchronization_complete], s3))))))"

text \<open>The requests that delete.\<close>

fun is_delete_call :: "event \<Rightarrow> bool" where
  "is_delete_call (Call (Delete_path p) a) = True"
| "is_delete_call e = False"

section \<open>The watcher and the processing loop of client.py\<close>

text \<open>
  \<open>self._events\<close>: the dictionary from a path to its latest change and the time it was
  seen. A Python dictionary keeps its keys in insertion order, and assigning to a key
  that is present keeps its place: an association list with \<open>AList.update\<close>. The
  times are the numbers \<open>time.time()\<close> returns, taken as reals.
\<close>

type_synonym 'p events = "('p \<times> Change \<times> real) list"

text \<open>
  The body of the loop of \<open>_watch_loop\<close> for one batch of changes, seen at time \<open>ts\<close>:
  \<open>self._events[p] = (change, ts)\<close> for each change of the batch, in the order the
  batch is walked.
\<close>

definition watch_batch :: "real \<Rightarrow> (Change \<times> 'p) list \<Rightarrow> 'p events \<Rightarrow> 'p events" where
  "watch_batch ts changes ev = fold (\<lambda>(change, p). AList.update p (change, ts)) changes ev"

text \<open>
  The first half of the body of \<open>_process_loop\<close>: the loop over the snapshot
  \<open>list(self._events.items())\<close>, which appends to \<open>ready\<close> and deletes from the
  dictionary every entry with \<open>now - ts >= self.debounce\<close>.
\<close>

fun drain ::
  "real \<Rightarrow> real \<Rightarrow> 'p events \<Rightarrow> ('p \<times> Change) list \<times> 'p events \<Rightarrow> ('p \<times> Change) list \<times> 'p events" where
  "drain now debounce [] (ready, ev) = (ready, ev)"
| "drain now debounce ((p, chg, ts) # items) (ready, ev) =
     (if now - ts \<ge> debounce
      then drain now debounce items (ready @ [(p, chg)], AList.delete p ev)
      else drain now debounce items (ready, ev))"

definition process_ready :: "real \<Rightarrow> real \<Rightarrow> 'p events \<Rightarrow> ('p \<times> Change) list \<times> 'p events" where
  "process_ready now debounce ev = drain now debounce ev ([], ev)"





text \<open>The last change of a path in a batch, and its last event in a history.\<close>

fun last_change :: "'p \<Rightarrow> (Change \<times> 'p) list \<Rightarrow> Change option" where
  "last_change p [] = None"
| "last_change p ((c, q) # changes) =
     (case last_change p changes of
        Some c' \<Rightarrow> Some c'
      | None \<Rightarrow> if q = p then Some c else None)"




text \<open>An entry whose last-seen time is at least the debounce window old.\<close>

definition old_enough :: "real \<Rightarrow> real \<Rightarrow> 'p \<times> Change \<times> real \<Rightarrow> bool" where
  "old_enough now debounce item = (case item of (p, chg, ts) \<Rightarrow> now - ts \<ge> debounce)"



section \<open>The threads of the processing loop of client.py\<close>

text \<open>
  The threads that work on paths: a thread that \<open>_process_loop\<close> starts runs
  \<open>_handle_event(change, p)\<close>; for a directory it starts one thread running
  \<open>_handle_child(child)\<close> per item of \<open>p.rglob("*")\<close> and then waits in \<open>join\<close> for
  them. An event thread is either still working or waiting for its children; a child
  thread remembers the path of the event thread that started it.
\<close>

datatype phase = Working | Joining

datatype task = Event_task Change path phase | Child_task path path

fun task_path :: "task \<Rightarrow> path" where
  "task_path (Event_task change p ph) = p"
| "task_path (Child_task parent child) = child"

fun is_event_task :: "task \<Rightarrow> bool" where
  "is_event_task (Event_task change p ph) = True"
| "is_event_task (Child_task parent child) = False"

fun is_child_of :: "path \<Rightarrow> task \<Rightarrow> bool" where
  "is_child_of p (Child_task parent child) = (parent = p)"
| "is_child_of p (Event_task change q ph) = False"

text \<open>
  The shared state: the dictionary \<open>self._events\<close> and the threads that have been
  started and have not returned yet.
\<close>

record threads =
  pending :: "path events"
  running :: "task list"

definition no_threads :: threads where
  "no_threads = \<lparr>pending = [], running = []\<rparr>"

text \<open>
  \<open>_handle_event\<close> reaches the loop over \<open>p.rglob("*")\<close> for an \<open>added\<close> or
  \<open>modified\<close> path under the sync folder that exists and is a directory. The loop
  starts one event thread per drained entry.
\<close>

definition fans_out :: "local_fs \<Rightarrow> path \<Rightarrow> Change \<Rightarrow> path \<Rightarrow> bool" where
  "fans_out lfs sync_folder change p =
     (relative_to p sync_folder \<noteq> None \<and> (change = added \<or> change = modified)
      \<and> l_exists lfs p \<and> l_is_dir lfs p)"

definition start_threads :: "(path \<times> Change) list \<Rightarrow> task list" where
  "start_threads ready = map (\<lambda>(p, chg). Event_task chg p Working) ready"

text \<open>
  What can happen next, in any order the scheduler chooses: the watcher records a batch;
  the processing loop, which waits in \<open>join\<close> as long as one of its event threads is
  running, drains the dictionary and starts the threads of the ready entries; an event
  thread for a directory starts its child threads; a thread returns (an event thread
  that starts children only after it has joined them all; an event thread whose walk
  raises ends without starting any). A move that cannot happen in a state gives \<open>None\<close>.
\<close>

datatype move = Record_batch real "(Change \<times> path) list" | Drain real
  | Start_children task | Return task

fun threads_step :: "local_fs \<Rightarrow> path \<Rightarrow> real \<Rightarrow> move \<Rightarrow> threads \<Rightarrow> threads option" where
  "threads_step lfs sync_folder debounce (Record_batch ts changes) st =
     Some (st\<lparr>pending := watch_batch ts changes (pending st)\<rparr>)"
| "threads_step lfs sync_folder debounce (Drain now) st =
     (if list_ex is_event_task (running st) then None
      else (case process_ready now debounce (pending st) of
              (ready, ev) \<Rightarrow> Some \<lparr>pending = ev, running = running st @ start_threads ready\<rparr>))"
| "threads_step lfs sync_folder debounce (Start_children t) st =
     (case t of
        Event_task change p Working \<Rightarrow>
          if t \<in> set (running st) \<and> fans_out lfs sync_folder change p then
            (case l_rglob lfs p of
               None \<Rightarrow> None
             | Some children \<Rightarrow>
                 Some (st\<lparr>running := remove1 t (running st)
                                      @ Event_task change p Joining # map (Child_task p) children\<rparr>))
          else None
      | _ \<Rightarrow> None)"
| "threads_step lfs sync_folder debounce (Return t) st =
     (if t \<notin> set (running st) then None
      else (case t of
              Child_task parent child \<Rightarrow> Some (st\<lparr>running := remove1 t (running st)\<rparr>)
            | Event_task change p Working \<Rightarrow>
                if fans_out lfs sync_folder change p \<and> l_rglob lfs p \<noteq> None then None
                else Some (st\<lparr>running := remove1 t (running st)\<rparr>)
            | Event_task change p Joining \<Rightarrow>
                if list_ex (is_child_of p) (running st) then None
                else Some (st\<lparr>running := remove1 t (running st)\<rparr>)))"

fun threads_run :: "local_fs \<Rightarrow> path \<Rightarrow> real \<Rightarrow> move list \<Rightarrow> threads \<Rightarrow> threads option" where
  "threads_run lfs sync_folder debounce [] st = Some st"
| "threads_run lfs sync_folder debounce (m # moves) st =
     (case threads_step lfs sync_folder debounce m st of
        None \<Rightarrow> None
      | Some st' \<Rightarrow> threads_run lfs sync_folder debounce moves st')"

text \<open>The paths that running threads work on: of all threads, and of the event threads.\<close>

definition running_paths :: "threads \<Rightarrow> path list" where
  "running_paths st = map task_path (running st)"

definition event_paths :: "threads \<Rightarrow> path list" where
  "event_paths st = map task_path (filter is_event_task (running st))"

section \<open>Concrete remote ends and local files for the examples\<close>



text \<open>A remote end that rejects every request with 500.\<close>

definition reject_all :: "unit remote" where
  "reject_all s r = (Response 500 [], s)"

text \<open>A local file system in which every path is a readable file with content \<open>data\<close>.\<close>

definition readable_fs :: local_fs where
  "readable_fs = \<lparr>l_exists = (\<lambda>p. True), l_is_dir = (\<lambda>p. False), l_is_file = (\<lambda>p. True),
     l_rglob = (\<lambda>p. Some []), l_open = (\<lambda>p n. Opened ''data''), l_mtime = (\<lambda>p. Some 0)\<rparr>"


text \<open>
  A local sync folder with the directory \<open>docs\<close> and the file \<open>docs/readme.md\<close> in
  it, last modified at time 150.
\<close>

definition docs_fs :: local_fs where
  "docs_fs = \<lparr>l_exists = (\<lambda>p. True), l_is_dir = (\<lambda>p. p = [''sync'', ''docs'']),
     l_is_file = (\<lambda>p. p \<noteq> [''sync'', ''docs'']),
     l_rglob = (\<lambda>p. Some [[''sync'', ''docs''], [''sync'', ''docs'', ''readme.md'']]),
     l_open = (\<lambda>p n. Opened ''text''), l_mtime = (\<lambda>p. Some 150)\<rparr>"

text \<open>
  A remote end whose listing has the directory \<open>docs\<close> and the file
  \<open>docs/readme.md\<close>, both last modified at time \<open>t\<close>, and that accepts every upload.
\<close>

definition docs_remote :: "real \<Rightarrow> unit remote" where
  "docs_remote t s r =
     (if r = Get_files
      then (Response 200 [Item ''docs'' True 0 t, Item ''docs/readme.md'' False 4 t], s)
      else (Response 200 [], s))"

text \<open>
  A sync folder holding the directory \<open>d\<close> with the file \<open>d/f.txt\<close> in it. A new
  tree: the watcher reports the directory and its file in one batch, the loop drains
  both, and the thread of the directory starts its child threads. A deletion that
  arrives while the upload of the same file is running: it is drained after the upload
  thread has returned.
\<close>

definition tree_fs :: local_fs where
  "tree_fs = \<lparr>l_exists = (\<lambda>p. True), l_is_dir = (\<lambda>p. p = [''sync'', ''d'']),
     l_is_file = (\<lambda>p. p \<noteq> [''sync'', ''d'']),
     l_rglob = (\<lambda>p. if p = [''sync'', ''d''] then Some [[''sync'', ''d'', ''f.txt'']] else Some []),
     l_open = (\<lambda>p n. Opened ''data''), l_mtime = (\<lambda>p. Some 0)\<rparr>"

definition new_tree :: "move list" where
  "new_tree = [Record_batch 0 [(added, [''sync'', ''d'']), (added, [''sync'', ''d'', ''f.txt''])],
               Drain 1,
               Start_children (Event_task added [''sync'', ''d''] Working)]"

definition delete_during_upload :: "move list" where
  "delete_during_upload =
     [Record_batch 0 [(added, [''sync'', ''old.txt''])],
      Drain 1,
      Record_batch 2 [(deleted, [''sync'', ''old.txt''])],
      Return (Event_task added [''sync'', ''old.txt''] Working),
      Drain 3]"

section \<open>Facts about the directory tree\<close>

lemma resolve_dirs_None_iff:
  "resolve_dirs s cur rest = None \<longleftrightarrow> (\<forall>i\<le>length rest. s (cur @ take i rest) = Some Dir)"
proof (induction rest arbitrary: cur)
  case Nil
  then show ?case by (auto split: option.splits node.splits)
next
  case (Cons seg rest)
  show ?case
  proof (cases "s cur")
    case None
    then show ?thesis by (auto intro: exI[of _ 0])
  next
    case (Some n)
    show ?thesis
    proof (cases n)
      case (File c)
      with Some show ?thesis by (auto intro: exI[of _ 0])
    next
      case Dir
      have "(\<forall>i\<le>length (seg # rest). s (cur @ take i (seg # rest)) = Some Dir)
            \<longleftrightarrow> (\<forall>i\<le>length rest. s ((cur @ [seg]) @ take i rest) = Some Dir)"
        (is "?L \<longleftrightarrow> ?R")
      proof
        assume l: ?L
        show ?R
        proof (intro allI impI)
          fix i assume "i \<le> length rest"
          with l have "s (cur @ take (Suc i) (seg # rest)) = Some Dir" by (metis Suc_le_mono length_Cons)
          then show "s ((cur @ [seg]) @ take i rest) = Some Dir" by simp
        qed
      next
        assume r: ?R
        show ?L
        proof (intro allI impI)
          fix i assume i: "i \<le> length (seg # rest)"
          show "s (cur @ take i (seg # rest)) = Some Dir"
          proof (cases i)
            case 0
            with Some Dir show ?thesis by simp
          next
            case (Suc j)
            with i r have "s ((cur @ [seg]) @ take j rest) = Some Dir" by simp
            with Suc show ?thesis by simp
          qed
        qed
      qed
      with Some Dir Cons.IH[of "cur @ [seg]"] show ?thesis by simp
    qed
  qed
qed

lemma prefix_take_conv: "prefix q p \<longleftrightarrow> (\<exists>i\<le>length p. q = take i p)"
  by (metis le_cases prefix_def append_eq_conv_conj length_take min.absorb2 prefix_length_le take_is_prefix take_all)

lemma resolve_dirs_root_None: "resolve_dirs s [] p = None \<longleftrightarrow> (\<forall>q. prefix q p \<longrightarrow> s q = Some Dir)"
  unfolding resolve_dirs_None_iff prefix_take_conv by auto

lemma wf_prefix_dir:
  assumes "wf_store s"
  shows "s p \<noteq> None \<Longrightarrow> strict_prefix q p \<Longrightarrow> s q = Some Dir"
proof (induction p rule: rev_induct)
  case Nil
  then show ?case by simp
next
  case (snoc x xs)
  from snoc.prems(1) assms have xs: "s xs = Some Dir"
    unfolding wf_store_def by (auto dest!: spec[of _ "xs @ [x]"])
  from snoc.prems(2) have "prefix q xs" by (auto simp: strict_prefix_def)
  then consider "q = xs" | "strict_prefix q xs" by (auto simp: strict_prefix_def)
  then show ?case
  proof cases
    case 1
    with xs show ?thesis by simp
  next
    case 2
    with snoc.IH xs show ?thesis by simp
  qed
qed

lemma wf_resolve_present:
  assumes "wf_store s" "s p \<noteq> None" "p \<noteq> []"
  shows "resolve_dirs s [] (butlast p) = None"
proof -
  obtain xs x where p: "p = xs @ [x]" using assms(3) by (cases p rule: rev_cases) auto
  have "\<And>q. prefix q (butlast p) \<Longrightarrow> strict_prefix q p"
    unfolding p by (auto simp: strict_prefix_def dest: prefix_length_le)
  with wf_prefix_dir[OF assms(1,2)] show ?thesis
    by (simp add: resolve_dirs_root_None)
qed

lemma path_mkdir_existing_dir:
  assumes "wf_store s" "s p = Some Dir"
  shows "path_mkdir parents True p s = (None, s)"
proof (cases "p = []")
  case True
  with assms show ?thesis by (subst path_mkdir.simps) (simp add: os_mkdir_def is_dir_def)
next
  case False
  with assms wf_resolve_present[of s p] have "os_mkdir p s = (Some FileExistsError, s)"
    by (simp add: os_mkdir_def)
  with assms show ?thesis by (subst path_mkdir.simps) (simp add: is_dir_def)
qed

lemma create_directory_existing:
  assumes "wf_store s" "s p = Some Dir"
  shows "upload_file p file True s = (200, s)"
proof -
  have par: "parent_mkdir p s = (None, s)"
  proof (cases "p = []")
    case True
    then show ?thesis by (simp add: parent_mkdir_def)
  next
    case False
    with assms have "s (butlast p) = Some Dir" by (simp add: wf_store_def)
    with assms(1) False show ?thesis by (simp add: parent_mkdir_def path_mkdir_existing_dir)
  qed
  show ?thesis by (simp add: upload_file_def par path_mkdir_existing_dir[OF assms])
qed

lemma file_above_iff: "file_above s p \<longleftrightarrow> (\<exists>q. prefix q p \<and> is_file s q)"
  by (auto simp: file_above_def list_ex_iff in_set_prefixes)

lemma is_file_iff: "is_file s p \<longleftrightarrow> (\<exists>c. s p = Some (File c))"
  by (auto simp: is_file_def split: option.splits node.splits)

lemma resolve_dirs_file:
  "is_file s (cur @ take i rest) \<Longrightarrow> i \<le> length rest \<Longrightarrow>
   (\<forall>j<i. s (cur @ take j rest) = Some Dir) \<Longrightarrow>
   resolve_dirs s cur rest = Some NotADirectoryError"
proof (induction rest arbitrary: cur i)
  case Nil
  then show ?case by (auto simp: is_file_iff)
next
  case (Cons seg rest)
  show ?case
  proof (cases i)
    case 0
    with Cons.prems show ?thesis by (auto simp: is_file_iff)
  next
    case (Suc k)
    with Cons.prems(3) have c: "s cur = Some Dir" by (auto dest: spec[of _ 0])
    have f: "is_file s ((cur @ [seg]) @ take k rest)" using Cons.prems(1) Suc by simp
    have k: "k \<le> length rest" using Cons.prems(2) Suc by simp
    have d: "\<forall>j<k. s ((cur @ [seg]) @ take j rest) = Some Dir"
    proof (intro allI impI)
      fix j assume "j < k"
      then have "Suc j < i" using Suc by simp
      with Cons.prems(3) have "s (cur @ take (Suc j) (seg # rest)) = Some Dir" by blast
      then show "s ((cur @ [seg]) @ take j rest) = Some Dir" by simp
    qed
    from Cons.IH[OF f k d] c show ?thesis by simp
  qed
qed

lemma resolve_dirs_error:
  "resolve_dirs s cur rest = Some e \<Longrightarrow>
   e = FileNotFoundError \<or> (e = NotADirectoryError \<and> (\<exists>i\<le>length rest. is_file s (cur @ take i rest)))"
proof (induction rest arbitrary: cur)
  case Nil
  then show ?case by (auto simp: is_file_iff split: option.splits node.splits)
next
  case (Cons seg rest)
  show ?case
  proof (cases "s cur")
    case None
    with Cons.prems show ?thesis by simp
  next
    case (Some n)
    show ?thesis
    proof (cases n)
      case (File c)
      with Some Cons.prems have "e = NotADirectoryError" by simp
      moreover have "is_file s (cur @ take 0 (seg # rest))" using Some File by (simp add: is_file_iff)
      ultimately show ?thesis by blast
    next
      case Dir
      with Some Cons.prems have "resolve_dirs s (cur @ [seg]) rest = Some e" by simp
      from Cons.IH[OF this] show ?thesis
      proof
        assume "e = FileNotFoundError" then show ?thesis by simp
      next
        assume "e = NotADirectoryError \<and> (\<exists>i\<le>length rest. is_file s ((cur @ [seg]) @ take i rest))"
        then obtain i where "e = NotADirectoryError" "i \<le> length rest" "is_file s ((cur @ [seg]) @ take i rest)"
          by blast
        then have "Suc i \<le> length (seg # rest) \<and> is_file s (cur @ take (Suc i) (seg # rest))" by simp
        with \<open>e = NotADirectoryError\<close> show ?thesis by blast
      qed
    qed
  qed
qed

lemma resolve_dirs_no_file:
  assumes "\<not> file_above s p" "resolve_dirs s [] p \<noteq> None"
  shows "resolve_dirs s [] p = Some FileNotFoundError"
proof -
  from assms(2) obtain e where e: "resolve_dirs s [] p = Some e" by auto
  from resolve_dirs_error[OF e] assms(1) show ?thesis
    unfolding e file_above_iff by (auto simp: take_is_prefix)
qed

lemma wf_resolve_file_above:
  assumes "wf_store s" "file_above s p"
  shows "resolve_dirs s [] p = Some NotADirectoryError"
proof -
  from assms(2) obtain q where q: "prefix q p" "is_file s q" by (auto simp: file_above_iff)
  then obtain i where i: "i \<le> length p" "q = take i p" by (auto simp: prefix_take_conv)
  have "\<forall>j<i. s ([] @ take j p) = Some Dir"
  proof (intro allI impI)
    fix j assume j: "j < i"
    have "length (take j p) \<noteq> length (take i p)" using j i(1) by simp
    then have "take j p \<noteq> take i p" by metis
    moreover have "take j p = take j (take i p)" using j by (simp add: min_def)
    then have "prefix (take j p) (take i p)" by (metis take_is_prefix)
    ultimately have "strict_prefix (take j p) q" unfolding i(2) strict_prefix_def by simp
    moreover have "s q \<noteq> None" using q(2) by (auto simp: is_file_iff)
    ultimately show "s ([] @ take j p) = Some Dir" using wf_prefix_dir[OF assms(1)] by simp
  qed
  with resolve_dirs_file[of s "[]" i p] q(2) i show ?thesis by simp
qed

lemma wf_dir_not_file_above:
  assumes "wf_store s" "s p = Some Dir"
  shows "\<not> file_above s p"
proof
  assume "file_above s p"
  then obtain q where q: "prefix q p" "is_file s q" by (auto simp: file_above_iff)
  show False
  proof (cases "q = p")
    case True
    with q(2) assms(2) show False by (simp add: is_file_iff)
  next
    case False
    with q(1) have "strict_prefix q p" by (simp add: strict_prefix_def)
    with wf_prefix_dir[OF assms(1), of p q] assms(2) q(2) show False by (simp add: is_file_iff)
  qed
qed

lemma path_mkdir_file_above:
  assumes "wf_store s" "file_above s p"
  shows "\<exists>e. path_mkdir parents True p s = (Some e, s)"
proof (cases p rule: rev_cases)
  case Nil
  with assms show ?thesis by (auto simp: file_above_iff wf_store_def is_file_iff)
next
  case (snoc xs x)
  have nd: "\<not> is_dir s p" using wf_dir_not_file_above[OF assms(1), of p] assms(2) by (auto simp: is_dir_def)
  show ?thesis
  proof (cases "file_above s xs")
    case True
    from wf_resolve_file_above[OF assms(1) True] snoc
    have "os_mkdir p s = (Some NotADirectoryError, s)" by (simp add: os_mkdir_def)
    with nd show ?thesis by (subst path_mkdir.simps) simp
  next
    case False
    with assms(2) snoc have f: "is_file s p" by (auto simp: file_above_iff prefix_snoc)
    then have "s p \<noteq> None" by (auto simp: is_file_iff)
    moreover from this wf_resolve_present[OF assms(1), of p] snoc
    have "resolve_dirs s [] (butlast p) = None" by simp
    ultimately have "os_mkdir p s = (Some FileExistsError, s)" using snoc by (simp add: os_mkdir_def)
    with nd show ?thesis by (subst path_mkdir.simps) simp
  qed
qed

lemma with_dirs_all_dirs:
  assumes "\<not> file_above s p" "prefix q p"
  shows "with_dirs p s q = Some Dir"
proof -
  from assms have "\<not> is_file s q" by (auto simp: file_above_iff)
  then show ?thesis using assms(2) by (cases "s q") (auto simp: with_dirs_def is_file_iff intro: node.exhaust)
qed

lemma path_mkdir_creates:
  assumes "wf_store s"
  shows "\<not> file_above s p \<Longrightarrow> path_mkdir True True p s = (None, with_dirs p s)"
proof (induction p rule: rev_induct)
  case Nil
  with assms show ?case
    by (subst path_mkdir.simps) (auto simp: os_mkdir_def is_dir_def wf_store_def with_dirs_def)
next
  case (snoc x xs)
  let ?p = "xs @ [x]"
  from snoc.prems have nf: "\<not> file_above s xs" by (auto simp: file_above_iff)
  show ?case
  proof (cases "resolve_dirs s [] xs")
    case None
    then have dirs: "\<And>q. prefix q xs \<Longrightarrow> s q = Some Dir" by (simp add: resolve_dirs_root_None)
    show ?thesis
    proof (cases "s ?p")
      case None': None
      have "with_dirs ?p s = s(?p \<mapsto> Dir)"
        using dirs None' by (auto simp: with_dirs_def fun_eq_iff prefix_snoc)
      with None None' show ?thesis by (subst path_mkdir.simps) (simp add: os_mkdir_def)
    next
      case (Some n)
      with snoc.prems have d: "s ?p = Some Dir"
        by (cases n) (auto simp: file_above_iff is_file_iff)
      have "with_dirs ?p s = s" using dirs d by (auto simp: with_dirs_def fun_eq_iff prefix_snoc)
      with path_mkdir_existing_dir[OF assms d] show ?thesis by simp
    qed
  next
    case (Some e)
    with resolve_dirs_no_file[OF nf] have e: "resolve_dirs s [] xs = Some FileNotFoundError" by simp
    then have os: "os_mkdir ?p s = (Some FileNotFoundError, s)" by (simp add: os_mkdir_def)
    have missing: "s ?p = None"
    proof (rule ccontr)
      assume "s ?p \<noteq> None"
      from wf_resolve_present[OF assms this] e show False by simp
    qed
    let ?s2 = "with_dirs xs s"
    have r2: "resolve_dirs ?s2 [] xs = None"
      using with_dirs_all_dirs[OF nf] by (simp add: resolve_dirs_root_None)
    have m2: "?s2 ?p = None" using missing by (simp add: with_dirs_def)
    have eq: "?s2(?p \<mapsto> Dir) = with_dirs ?p s"
      using missing by (auto simp: with_dirs_def fun_eq_iff prefix_snoc)
    have second: "path_mkdir False True ?p ?s2 = (None, with_dirs ?p s)"
      using r2 m2 eq by (subst path_mkdir.simps) (simp add: os_mkdir_def)
    show ?thesis
      using os snoc.IH[OF nf] second by (subst path_mkdir.simps) simp
  qed
qed

lemma parent_mkdir_file_above:
  assumes "wf_store s" "file_above s (butlast p)"
  shows "\<exists>e. parent_mkdir p s = (Some e, s)"
proof (cases "p = []")
  case True
  with assms show ?thesis by (auto simp: wf_store_def file_above_iff is_file_iff)
next
  case False
  with path_mkdir_file_above[OF assms, of True] show ?thesis by (simp add: parent_mkdir_def)
qed

lemma parent_mkdir_creates:
  assumes "wf_store s" "\<not> file_above s (butlast p)"
  shows "parent_mkdir p s = (None, with_dirs (butlast p) s)"
proof (cases "p = []")
  case True
  with assms(1) show ?thesis by (auto simp: parent_mkdir_def with_dirs_def wf_store_def fun_eq_iff)
next
  case False
  with path_mkdir_creates[OF assms] show ?thesis by (simp add: parent_mkdir_def)
qed

lemma with_dirs_butlast_target: "wf_store s \<Longrightarrow> with_dirs (butlast p) s p = s p"
  by (cases p rule: rev_cases) (auto simp: with_dirs_def wf_store_def dest: prefix_length_le)

lemma wf_init_store: "wf_store init_store"
  by (auto simp: wf_store_def init_store_def)

section \<open>Deleting and creating on the server\<close>

text \<open>
  C3 (as the claim states it, refuted): deleting a path that the store does not have is
  not answered with a success status. On the initial store, \<open>old.txt\<close> is absent and
  the answer to its deletion is 404.
\<close>

theorem delete_absent_counterexample:
  "init_store [''old.txt''] = None \<and> fst (delete_file [''old.txt''] init_store) = 404"
  by (simp add: init_store_def delete_file_def exists_path_def)

text \<open>
  C3 (amended): a delete request for a path that the store does not have is answered
  with 404 and leaves the store as it was; the client's \<open>_delete_path\<close> sends that one
  request, prints nothing, raises nothing and sends nothing more.
\<close>

theorem delete_absent_not_found:
  assumes "s (path_parts rel) = None"
  shows "delete_file (path_parts rel) s = (404, s)
       \<and> delete_path (server ls) rel s = ([Call (Delete_path rel) (Response 404 [])], s)"
  using assms by (simp add: delete_file_def exists_path_def delete_path_def)

theorem delete_absent_not_found_witness:
  "init_store (path_parts ''old.txt'') = None
   \<and> delete_file (path_parts ''old.txt'') init_store = (404, init_store)
   \<and> delete_path (server (\<lambda>s. [])) ''old.txt'' init_store
       = ([Call (Delete_path ''old.txt'') (Response 404 [])], init_store)"
proof -
  have h: "init_store (path_parts ''old.txt'') = None"
    by (simp add: init_store_def path_parts_def)
  from delete_absent_not_found[of init_store "''old.txt''" "\<lambda>s. []"] h show ?thesis by simp
qed

text \<open>
  C8: creating a directory that the store already has as a directory is answered with
  200 and leaves the store exactly as it was, for the handler and for the request that
  the client's \<open>_create_folder\<close> sends.
\<close>

theorem create_directory_idempotent:
  assumes "wf_store s" and "s (path_parts file_path) = Some Dir"
  shows "upload_file (path_parts file_path) file True s = (200, s)
       \<and> server ls s (Post_upload file_path file True) = (Response 200 [], s)"
  using create_directory_existing[OF assms] by simp

theorem create_directory_idempotent_witness:
  "wf_store (init_store([''a''] \<mapsto> Dir, [''a'', ''b''] \<mapsto> Dir))
   \<and> (init_store([''a''] \<mapsto> Dir, [''a'', ''b''] \<mapsto> Dir)) (path_parts ''a/b'') = Some Dir
   \<and> upload_file (path_parts ''a/b'') None True (init_store([''a''] \<mapsto> Dir, [''a'', ''b''] \<mapsto> Dir))
       = (200, init_store([''a''] \<mapsto> Dir, [''a'', ''b''] \<mapsto> Dir))
   \<and> server (\<lambda>s. []) (init_store([''a''] \<mapsto> Dir, [''a'', ''b''] \<mapsto> Dir)) (Post_upload ''a/b'' None True)
       = (Response 200 [], init_store([''a''] \<mapsto> Dir, [''a'', ''b''] \<mapsto> Dir))"
proof -
  have wf: "wf_store (init_store([''a''] \<mapsto> Dir, [''a'', ''b''] \<mapsto> Dir))"
    by (auto simp: wf_store_def init_store_def)
  have h: "(init_store([''a''] \<mapsto> Dir, [''a'', ''b''] \<mapsto> Dir)) (path_parts ''a/b'') = Some Dir"
    by (simp add: init_store_def path_parts_def)
  note t = create_directory_idempotent[OF wf h, of None "\<lambda>s. []"]
  from wf h t show ?thesis by blast
qed

text \<open>
  C9 (as the claim states it, refuted): when a location on the way to the target is a
  regular file, the missing parent directories are not created. With \<open>f\<close> a file in the
  store, an upload to \<open>f/a/x\<close> without a payload is answered with 500 and the missing
  parent \<open>f/a\<close> is still missing afterwards.
\<close>

theorem upload_without_file_counterexample:
  "(init_store([''f''] \<mapsto> File ''x'')) [''f'', ''a''] = None
   \<and> fst (upload_file [''f'', ''a'', ''x''] None False (init_store([''f''] \<mapsto> File ''x''))) = 500
   \<and> snd (upload_file [''f'', ''a'', ''x''] None False (init_store([''f''] \<mapsto> File ''x'')))
        [''f'', ''a''] = None"
proof -
  have wf: "wf_store (init_store([''f''] \<mapsto> File ''x''))"
    by (auto simp: wf_store_def init_store_def)
  have fa: "file_above (init_store([''f''] \<mapsto> File ''x'')) (butlast [''f'', ''a'', ''x''])"
    by (simp add: file_above_def init_store_def is_file_def)
  from parent_mkdir_file_above[OF wf fa]
  obtain e where "parent_mkdir [''f'', ''a'', ''x''] (init_store([''f''] \<mapsto> File ''x''))
      = (Some e, init_store([''f''] \<mapsto> File ''x''))" by blast
  then show ?thesis by (simp add: upload_file_def init_store_def)
qed

text \<open>
  C9 (amended): an upload request with \<open>is_directory\<close> false and no file payload is
  always answered with 500, never 400, and writes nothing at the target path. Unless a
  location on the way to the target is a regular file, every missing parent directory
  of the target has been created by then and stays; if one is a regular file, the store
  is left as it was.
\<close>

theorem upload_without_file:
  assumes "wf_store s"
  shows "fst (upload_file p None False s) = 500
       \<and> snd (upload_file p None False s) p = s p
       \<and> snd (upload_file p None False s) =
           (if file_above s (butlast p) then s else with_dirs (butlast p) s)"
proof (cases "file_above s (butlast p)")
  case True
  from parent_mkdir_file_above[OF assms True]
  obtain e where "parent_mkdir p s = (Some e, s)" by blast
  with True show ?thesis by (simp add: upload_file_def)
next
  case False
  from parent_mkdir_creates[OF assms False] False with_dirs_butlast_target[OF assms, of p]
  show ?thesis by (simp add: upload_file_def)
qed

theorem upload_without_file_witness:
  "wf_store init_store
   \<and> fst (upload_file [''a'', ''b.txt''] None False init_store) = 500
   \<and> snd (upload_file [''a'', ''b.txt''] None False init_store) [''a'', ''b.txt''] = None
   \<and> init_store [''a''] = None
   \<and> snd (upload_file [''a'', ''b.txt''] None False init_store) [''a''] = Some Dir"
proof -
  have nf: "\<not> file_above init_store (butlast [''a'', ''b.txt''])"
    by (simp add: file_above_def init_store_def is_file_def)
  from upload_without_file[OF wf_init_store, of "[''a'', ''b.txt'']"] nf wf_init_store
  show ?thesis by (simp add: with_dirs_def init_store_def)
qed

section \<open>The requests of the client\<close>
















lemma requests_append: "requests (xs @ ys) = requests xs @ requests ys"
  by (induction xs rule: requests.induct) simp_all

lemma requests_rejected: "list_all call_rejected evs \<Longrightarrow> length (requests evs) = length evs"
  by (induction evs rule: requests.induct) simp_all






text \<open>
  C10: for an event whose path does not lie under the sync folder, \<open>_handle_event\<close>
  returns normally, having sent no request and printed nothing, whatever the change,
  the local files and the remote end are.
\<close>

theorem handle_event_outside_sync_folder:
  assumes "\<not> prefix sync_folder p"
  shows "handle_event srv lfs sync_folder change p s = (Returns, [], s)"
  using assms by (simp add: handle_event_def relative_to_def)

theorem handle_event_outside_sync_folder_witness:
  "\<not> prefix [''sync''] [''tmp'', ''notes.txt'']
   \<and> handle_event reject_all readable_fs [''sync''] modified [''tmp'', ''notes.txt''] ()
       = (Returns, [], ())"
proof -
  have h: "\<not> prefix [''sync''] [''tmp'', ''notes.txt'']" by simp
  from handle_event_outside_sync_folder[OF h, of reject_all readable_fs modified "()"] h
  show ?thesis by simp
qed

section \<open>Debouncing\<close>

lemma drain_filter:
  "distinct (map fst items) \<Longrightarrow>
   drain now debounce items (ready, ev) =
     (ready @ map (\<lambda>(p, chg, ts). (p, chg)) (filter (old_enough now debounce) items),
      filter (\<lambda>item. fst item \<notin> fst ` set (filter (old_enough now debounce) items)) ev)"
proof (induction items arbitrary: ready ev)
  case Nil
  then show ?case by simp
next
  case (Cons item items)
  obtain p chg ts where i: "item = (p, chg, ts)" by (cases item)
  from Cons.prems have d: "distinct (map fst items)" by simp
  show ?case
  proof (cases "now - ts \<ge> debounce")
    case True
    have "filter (\<lambda>item. fst item \<notin> fst ` set (filter (old_enough now debounce) items))
            (AList.delete p ev)
        = filter (\<lambda>item. fst item \<notin> fst ` set (filter (old_enough now debounce) ((p, chg, ts) # items))) ev"
      using True by (auto simp: AList.delete_eq old_enough_def intro!: filter_cong)
    with Cons.IH[OF d, of "ready @ [(p, chg)]" "AList.delete p ev"] True i show ?thesis
      by (simp add: old_enough_def)
  next
    case False
    with Cons.IH[OF d, of ready ev] i show ?thesis by (simp add: old_enough_def)
  qed
qed

lemma process_ready_filter:
  assumes "distinct (map fst ev)"
  shows "process_ready now debounce ev =
     (map (\<lambda>(p, chg, ts). (p, chg)) (filter (old_enough now debounce) ev),
      filter (\<lambda>item. \<not> old_enough now debounce item) ev)"
proof -
  have "filter (\<lambda>item. fst item \<notin> fst ` set (filter (old_enough now debounce) ev)) ev
      = filter (\<lambda>item. \<not> old_enough now debounce item) ev"
  proof (rule filter_cong[OF refl])
    fix item assume m: "item \<in> set ev"
    show "(fst item \<notin> fst ` set (filter (old_enough now debounce) ev))
        = (\<not> old_enough now debounce item)"
    proof
      assume "fst item \<notin> fst ` set (filter (old_enough now debounce) ev)"
      with m show "\<not> old_enough now debounce item" by force
    next
      assume n: "\<not> old_enough now debounce item"
      show "fst item \<notin> fst ` set (filter (old_enough now debounce) ev)"
      proof
        assume "fst item \<in> fst ` set (filter (old_enough now debounce) ev)"
        then obtain item' where i': "item' \<in> set ev" "old_enough now debounce item'" "fst item' = fst item"
          by auto
        from assms m i'(1,3) have "item' = item"
          by (metis eq_key_imp_eq_value prod.collapse)
        with i'(2) n show False by simp
      qed
    qed
  qed
  with drain_filter[OF assms, of now debounce "[]" ev] show ?thesis
    by (simp add: process_ready_def)
qed

lemma watch_batch_distinct: "distinct (map fst ev) \<Longrightarrow> distinct (map fst (watch_batch ts changes ev))"
  unfolding watch_batch_def
  by (induction changes arbitrary: ev) (auto simp: distinct_update)



lemma last_change_None: "last_change p changes = None \<Longrightarrow> p \<notin> snd ` set changes"
  by (induction changes) (force split: option.splits if_splits)+

lemma process_ready_distinct:
  "distinct (map fst ev) \<Longrightarrow> distinct (map fst (snd (process_ready now debounce ev)))"
  by (simp add: process_ready_filter distinct_map_filter)









section \<open>Reconciliation\<close>

text \<open>
  No handler of the server other than \<open>delete_file\<close> removes a location: making
  directories and writing a file only add to the tree or replace the content of a file.
\<close>

lemma os_mkdir_keeps: "s q \<noteq> None \<Longrightarrow> snd (os_mkdir p s) q \<noteq> None"
  by (auto simp: os_mkdir_def split: option.splits)

lemma path_mkdir_keeps: "s q \<noteq> None \<Longrightarrow> snd (path_mkdir parents exist_ok p s) q \<noteq> None"
proof (induction parents exist_ok p s rule: path_mkdir.induct)
  case (1 parents exist_ok p s)
  obtain e s1 where o: "os_mkdir p s = (e, s1)" by (cases "os_mkdir p s")
  from os_mkdir_keeps[of s q p] "1.prems" o have k1: "s1 q \<noteq> None" by simp
  show ?case
  proof (cases e)
    case None
    with o k1 show ?thesis by (subst path_mkdir.simps) simp
  next
    case (Some err)
    show ?thesis
    proof (cases "err = FileNotFoundError \<and> parents \<and> p \<noteq> []")
      case False
      with o k1 Some show ?thesis
        by (subst path_mkdir.simps) (cases err; auto)
    next
      case True
      obtain e2 s2 where r: "path_mkdir True True (butlast p) s1 = (e2, s2)"
        by (cases "path_mkdir True True (butlast p) s1")
      from True have c: "\<not> (\<not> parents \<or> p = [])" by simp
      from True Some o have o': "(Some FileNotFoundError, s1) = os_mkdir p s" by simp
      from "1.IH"(1)[OF o' refl refl c k1] r have k2: "s2 q \<noteq> None" by simp
      show ?thesis
      proof (cases e2)
        case None
        with r have r': "(None, s2) = path_mkdir True True (butlast p) s1" by simp
        from "1.IH"(2)[OF o' refl refl c r' refl k2]
        have "snd (path_mkdir False exist_ok p s2) q \<noteq> None" by simp
        with o Some True r None show ?thesis by (subst path_mkdir.simps) simp
      next
        case (Some err2)
        with o \<open>e = Some err\<close> True r k2 show ?thesis by (subst path_mkdir.simps) simp
      qed
    qed
  qed
qed

lemma open_wb_keeps: "s q \<noteq> None \<Longrightarrow> snd (open_wb p content s) q \<noteq> None"
  by (auto simp: open_wb_def split: option.splits)

lemma upload_file_keeps:
  assumes "s q \<noteq> None"
  shows "snd (upload_file p payload is_directory s) q \<noteq> None"
proof -
  obtain e s1 where pm: "parent_mkdir p s = (e, s1)" by (cases "parent_mkdir p s")
  have k1: "s1 q \<noteq> None"
    using path_mkdir_keeps[of s q True True "butlast p"] assms pm
    by (auto simp: parent_mkdir_def split: if_splits)
  obtain e2 s2 where m2: "path_mkdir False True p s1 = (e2, s2)" by (cases "path_mkdir False True p s1")
  with path_mkdir_keeps[of s1 q False True p] k1 have k2: "s2 q \<noteq> None" by simp
  show ?thesis
  proof (cases payload)
    case None
    with pm k1 m2 k2 show ?thesis by (auto simp: upload_file_def split: option.splits)
  next
    case (Some content)
    obtain e3 s3 where m3: "open_wb p content s1 = (e3, s3)" by (cases "open_wb p content s1")
    with open_wb_keeps[of s1 q p content] k1 have "s3 q \<noteq> None" by simp
    with pm k1 m2 k2 m3 Some show ?thesis by (auto simp: upload_file_def split: option.splits)
  qed
qed

lemma server_keeps:
  assumes "\<forall>p. r \<noteq> Delete_path p" "s q \<noteq> None"
  shows "snd (server ls s r) q \<noteq> None"
proof (cases r)
  case Get_files
  with assms(2) show ?thesis by simp
next
  case (Post_upload fp payload d)
  with upload_file_keeps[of s q "path_parts fp" payload d] assms(2) show ?thesis
    by (simp add: case_prod_beta)
next
  case (Delete_path fp)
  with assms(1) show ?thesis by simp
qed

text \<open>
  The functions that \<open>force_sync\<close> runs send no delete request, so whatever holds of
  the remote state and is kept by every other request still holds afterwards.
\<close>

lemma create_folder_parts_keeps:
  assumes K: "\<And>s r. (\<forall>p. r \<noteq> Delete_path p) \<Longrightarrow> P s \<Longrightarrow> P (snd (srv s r))"
  shows "P s \<Longrightarrow> P (snd (create_folder_parts srv cur parts s))
           \<and> list_all (\<lambda>e. \<not> is_delete_call e) (fst (create_folder_parts srv cur parts s))"
proof (induction parts arbitrary: cur s)
  case Nil
  then show ?case by simp
next
  case (Cons part parts)
  let ?req = "Post_upload (next_cur cur part) None True"
  obtain a s' where r: "srv s ?req = (a, s')" by (cases "srv s ?req")
  from K[of ?req s] Cons.prems r have p': "P s'" by simp
  show ?case
  proof (cases a)
    case Request_exception
    with r p' show ?thesis by simp
  next
    case (Response code body)
    show ?thesis
    proof (cases "code = 200")
      case True
      from Cons.IH[OF p', of "next_cur cur part"] r Response True show ?thesis
        by (simp add: case_prod_beta)
    next
      case False
      with r p' Response show ?thesis by simp
    qed
  qed
qed

lemma create_folder_keeps:
  assumes K: "\<And>s r. (\<forall>p. r \<noteq> Delete_path p) \<Longrightarrow> P s \<Longrightarrow> P (snd (srv s r))"
  shows "P s \<Longrightarrow> P (snd (create_folder srv sync_folder p s))
           \<and> list_all (\<lambda>e. \<not> is_delete_call e) (fst (create_folder srv sync_folder p s))"
  using create_folder_parts_keeps[of P srv s "[]", OF K]
  by (auto simp: create_folder_def split: option.splits)

lemma upload_attempts_keeps:
  assumes K: "\<And>s r. (\<forall>p. r \<noteq> Delete_path p) \<Longrightarrow> P s \<Longrightarrow> P (snd (srv s r))"
  shows "P s \<Longrightarrow> P (snd (upload_attempts srv opn rel attempts s))
           \<and> list_all (\<lambda>e. \<not> is_delete_call e) (fst (upload_attempts srv opn rel attempts s))"
proof (induction attempts arbitrary: s)
  case Nil
  then show ?case by simp
next
  case (Cons attempt rest)
  show ?case
  proof (cases "opn attempt")
    case (Opened content)
    let ?req = "Post_upload rel (Some content) False"
    obtain a s' where r: "srv s ?req = (a, s')" by (cases "srv s ?req")
    from K[of ?req s] Cons.prems r have p': "P s'" by simp
    show ?thesis
    proof (cases a)
      case Request_exception
      with r p' Opened show ?thesis by simp
    next
      case (Response code body)
      show ?thesis
      proof (cases "code = 200")
        case True
        with r p' Opened Response show ?thesis by simp
      next
        case False
        from Cons.IH[OF p'] r Opened Response False show ?thesis
          by (simp add: case_prod_beta)
      qed
    qed
  next
    case Raises_PermissionError
    with Cons.IH[OF Cons.prems] show ?thesis by simp
  next
    case Raises_FileNotFoundError
    with Cons.IH[OF Cons.prems] show ?thesis by simp
  next
    case Raises_other
    with Cons.prems show ?thesis by simp
  qed
qed

lemma client_upload_file_keeps:
  assumes K: "\<And>s r. (\<forall>p. r \<noteq> Delete_path p) \<Longrightarrow> P s \<Longrightarrow> P (snd (srv s r))"
  shows "P s \<Longrightarrow> P (snd (client_upload_file srv lfs sync_folder p s))
           \<and> list_all (\<lambda>e. \<not> is_delete_call e) (fst (client_upload_file srv lfs sync_folder p s))"
proof -
  assume p: "P s"
  show ?thesis
  proof (cases "relative_to p sync_folder")
    case None
    with p show ?thesis by (simp add: client_upload_file_def)
  next
    case (Some rel)
    from upload_attempts_keeps[of P srv s "l_open lfs p" "rel_str rel" "[0, 1, 2]", OF K p] Some
    show ?thesis by (simp add: client_upload_file_def del: upload_attempts.simps)
  qed
qed

lemma sync_dirs_keeps:
  assumes K: "\<And>s r. (\<forall>p. r \<noteq> Delete_path p) \<Longrightarrow> P s \<Longrightarrow> P (snd (srv s r))"
  shows "P s \<Longrightarrow> P (snd (sync_dirs srv sync_folder sf lf s))
           \<and> list_all (\<lambda>e. \<not> is_delete_call e) (fst (sync_dirs srv sync_folder sf lf s))"
proof (induction lf arbitrary: s)
  case Nil
  then show ?case by simp
next
  case (Cons entry lf)
  obtain rel_path is_directory mtime where e: "entry = (rel_path, is_directory, mtime)"
    by (cases entry)
  show ?case
  proof (cases "is_directory \<and> map_of sf rel_path = None")
    case True
    obtain out s' where c: "create_folder srv sync_folder (sync_folder @ path_parts rel_path) s = (out, s')"
      by (cases "create_folder srv sync_folder (sync_folder @ path_parts rel_path) s")
    from create_folder_keeps[of P srv s sync_folder "sync_folder @ path_parts rel_path", OF K] Cons.prems c
    have p': "P s'" and d: "list_all (\<lambda>e. \<not> is_delete_call e) out" by simp_all
    from Cons.IH[OF p'] e True c d show ?thesis by (simp add: case_prod_beta)
  next
    case False
    with Cons.IH[OF Cons.prems] e show ?thesis by auto
  qed
qed

lemma sync_files_keeps:
  assumes K: "\<And>s r. (\<forall>p. r \<noteq> Delete_path p) \<Longrightarrow> P s \<Longrightarrow> P (snd (srv s r))"
  shows "P s \<Longrightarrow> P (snd (sync_files srv lfs sync_folder sf lf s))
           \<and> list_all (\<lambda>e. \<not> is_delete_call e) (fst (sync_files srv lfs sync_folder sf lf s))"
proof (induction lf arbitrary: s)
  case Nil
  then show ?case by simp
next
  case (Cons entry lf)
  show ?case
  proof (cases "needs_upload sf entry")
    case True
    obtain out s' where c: "client_upload_file srv lfs sync_folder (sync_folder @ path_parts (fst entry)) s = (out, s')"
      by (cases "client_upload_file srv lfs sync_folder (sync_folder @ path_parts (fst entry)) s")
    from client_upload_file_keeps[of P srv s lfs sync_folder "sync_folder @ path_parts (fst entry)", OF K]
      Cons.prems c
    have p': "P s'" and d: "list_all (\<lambda>e. \<not> is_delete_call e) out" by simp_all
    from Cons.IH[OF p'] True c d show ?thesis by (simp add: case_prod_beta)
  next
    case False
    with Cons.IH[OF Cons.prems] show ?thesis by simp
  qed
qed

lemma force_sync_keeps:
  assumes K: "\<And>s r. (\<forall>p. r \<noteq> Delete_path p) \<Longrightarrow> P s \<Longrightarrow> P (snd (srv s r))"
      and p: "P s"
  shows "P (snd (force_sync srv lfs sync_folder path s))
           \<and> list_all (\<lambda>e. \<not> is_delete_call e) (fst (force_sync srv lfs sync_folder path s))"
proof (cases "sync_root sync_folder path")
  case None
  with p show ?thesis by (simp add: force_sync_def)
next
  case (Some walk_root)
  obtain a s1 where g: "srv s Get_files = (a, s1)" by (cases "srv s Get_files")
  from K[of Get_files s] p g have p1: "P s1" by simp
  show ?thesis
  proof (cases a)
    case Request_exception
    with Some g p1 show ?thesis by (simp add: force_sync_def)
  next
    case (Response code listing)
    show ?thesis
    proof (cases "code = 200 \<and> l_rglob lfs walk_root \<noteq> None")
      case False
      with Some g p1 Response show ?thesis by (auto simp: force_sync_def)
    next
      case True
      then obtain walk where w: "l_rglob lfs walk_root = Some walk" and c: "code = 200" by auto
      let ?sf = "server_files listing" and ?lf = "local_files lfs sync_folder walk"
      obtain out1 s2 where d: "sync_dirs srv sync_folder ?sf ?lf s1 = (out1, s2)"
        by (cases "sync_dirs srv sync_folder ?sf ?lf s1")
      from sync_dirs_keeps[of P srv s1 sync_folder ?sf ?lf, OF K] p1 d
      have p2: "P s2" and d1: "list_all (\<lambda>e. \<not> is_delete_call e) out1" by simp_all
      obtain out2 s3 where f: "sync_files srv lfs sync_folder ?sf ?lf s2 = (out2, s3)"
        by (cases "sync_files srv lfs sync_folder ?sf ?lf s2")
      from sync_files_keeps[of P srv s2 lfs sync_folder ?sf ?lf, OF K] p2 f
      have p3: "P s3" and d2: "list_all (\<lambda>e. \<not> is_delete_call e) out2" by simp_all
      from Some g Response c w d f p3 d1 d2 show ?thesis by (simp add: force_sync_def)
    qed
  qed
qed

text \<open>
  C5: \<open>force_sync\<close> never deletes. Every location that the store of the server has
  before the call (a file or a directory, whether the local folder has it or not) is
  still there after the call; and whatever the remote end is and answers, no delete
  request is among the requests that \<open>force_sync\<close> sends.
\<close>

theorem force_sync_never_deletes:
  assumes "exists_path s q"
  shows "exists_path (snd (force_sync (server ls) lfs sync_folder path s)) q
       \<and> list_all (\<lambda>e. \<not> is_delete_call e) (fst (force_sync srv lfs sync_folder path t))"
proof -
  have "exists_path (snd (force_sync (server ls) lfs sync_folder path s)) q"
    using force_sync_keeps[of "\<lambda>s. exists_path s q" "server ls" s lfs sync_folder path]
      server_keeps[of _ _ q ls] assms
    by (simp add: exists_path_def)
  moreover have "list_all (\<lambda>e. \<not> is_delete_call e) (fst (force_sync srv lfs sync_folder path t))"
    using force_sync_keeps[of "\<lambda>s. True" srv t lfs sync_folder path] by simp
  ultimately show ?thesis by simp
qed

theorem force_sync_never_deletes_witness:
  "exists_path (init_store([''old.txt''] \<mapsto> File ''kept'')) [''old.txt'']
   \<and> exists_path (snd (force_sync (server (\<lambda>s. [])) docs_fs [''sync''] None
                        (init_store([''old.txt''] \<mapsto> File ''kept'')))) [''old.txt'']
   \<and> list_all (\<lambda>e. \<not> is_delete_call e) (fst (force_sync reject_all docs_fs [''sync''] None ()))"
proof -
  have h: "exists_path (init_store([''old.txt''] \<mapsto> File ''kept'')) [''old.txt'']"
    by (simp add: exists_path_def)
  note t = force_sync_never_deletes[OF h, of "\<lambda>s. []" docs_fs "[''sync'']" None reject_all "()"]
  from h t show ?thesis by blast
qed



















section \<open>Threads working on the same path\<close>

lemma filter_event_remove1:
  "filter is_event_task (remove1 t ts)
     = (if is_event_task t then remove1 t (filter is_event_task ts) else filter is_event_task ts)"
  by (induction ts) auto

lemma distinct_map_remove1:
  "distinct (map f xs) \<Longrightarrow> distinct (map f (remove1 t xs))"
proof (induction xs)
  case Nil
  then show ?case by simp
next
  case (Cons x xs)
  have "f ` set (remove1 t xs) \<subseteq> f ` set xs" using set_remove1_subset[of t xs] by blast
  with Cons show ?case by auto
qed

lemma distinct_map_remove1_notin:
  "distinct (map f xs) \<Longrightarrow> t \<in> set xs \<Longrightarrow> f t \<notin> f ` set (remove1 t xs)"
proof (induction xs)
  case Nil
  then show ?case by simp
next
  case (Cons x xs)
  show ?case
  proof (cases "t = x")
    case True
    with Cons.prems show ?thesis by auto
  next
    case False
    with Cons.prems have m: "t \<in> set xs" "distinct (map f xs)" "f x \<notin> f ` set xs" by auto
    from m(1,3) have "f t \<noteq> f x" by (metis imageI)
    with Cons.IH[OF m(2,1)] False show ?thesis by simp
  qed
qed

lemma start_threads_paths:
  "map task_path (filter is_event_task (start_threads ready)) = map fst ready"
  by (induction ready) (auto simp: start_threads_def)

lemma threads_step_exclusive:
  assumes "threads_step lfs sync_folder debounce m st = Some st'"
      and "distinct (map fst (pending st))" and "distinct (event_paths st)"
  shows "distinct (map fst (pending st')) \<and> distinct (event_paths st')"
proof (cases m)
  case (Record_batch ts changes)
  with assms show ?thesis by (auto simp: watch_batch_distinct event_paths_def)
next
  case (Drain now)
  with assms(1) have none: "filter is_event_task (running st) = []"
    and st': "st' = \<lparr>pending = snd (process_ready now debounce (pending st)),
                     running = running st @ start_threads (fst (process_ready now debounce (pending st)))\<rparr>"
    by (auto simp: list_ex_iff filter_empty_conv case_prod_beta split: if_splits)
  have "map fst (fst (process_ready now debounce (pending st)))
        = map fst (filter (old_enough now debounce) (pending st))"
    by (simp add: process_ready_filter[OF assms(2)] case_prod_beta comp_def)
  then have "distinct (map fst (fst (process_ready now debounce (pending st))))"
    using assms(2) by (simp add: distinct_map_filter)
  with st' none process_ready_distinct[OF assms(2), of now debounce] show ?thesis
    by (simp add: event_paths_def start_threads_paths)
next
  case (Start_children t)
  with assms(1) obtain change p children where
    t: "t = Event_task change p Working" "t \<in> set (running st)"
    and st': "st' = st\<lparr>running := remove1 t (running st)
                                      @ Event_task change p Joining # map (Child_task p) children\<rparr>"
    by (auto split: task.splits phase.splits if_splits option.splits)
  have ch: "filter is_event_task (map (Child_task p) children) = []"
    by (induction children) auto
  from t have mem: "t \<in> set (filter is_event_task (running st))" by simp
  from assms(3) have d: "distinct (map task_path (filter is_event_task (running st)))"
    by (simp add: event_paths_def)
  from distinct_map_remove1_notin[OF d mem] t(1)
  have "p \<notin> task_path ` set (remove1 t (filter is_event_task (running st)))" by simp
  with distinct_map_remove1[OF d, of t] st' t(1) ch assms(2) show ?thesis
    by (simp add: event_paths_def filter_event_remove1)
next
  case (Return t)
  with assms(1) have st': "st' = st\<lparr>running := remove1 t (running st)\<rparr>"
    by (auto split: task.splits phase.splits if_splits)
  from assms(3) have d: "distinct (map task_path (filter is_event_task (running st)))"
    by (simp add: event_paths_def)
  with distinct_map_remove1[OF d, of t] st' assms(2) show ?thesis
    by (simp add: event_paths_def filter_event_remove1)
qed

lemma threads_run_exclusive:
  "threads_run lfs sync_folder debounce moves st = Some st'
     \<Longrightarrow> distinct (map fst (pending st)) \<Longrightarrow> distinct (event_paths st)
     \<Longrightarrow> distinct (map fst (pending st')) \<and> distinct (event_paths st')"
proof (induction moves arbitrary: st)
  case Nil
  then show ?case by simp
next
  case (Cons m moves)
  from Cons.prems(1) obtain st1 where
    s: "threads_step lfs sync_folder debounce m st = Some st1"
       "threads_run lfs sync_folder debounce moves st1 = Some st'"
    by (auto split: option.splits)
  from threads_step_exclusive[OF s(1) Cons.prems(2,3)] Cons.IH[OF s(2)] show ?case by simp
qed

text \<open>
  C2 (as the claim states it, refuted): client.py has no set of paths in flight. When a
  new directory \<open>d\<close> and its file \<open>d/f.txt\<close> are reported together, the loop starts an
  event thread for each; the thread of \<open>d\<close> then starts a child thread for
  \<open>d/f.txt\<close>, which uploads that file, while the event thread of \<open>d/f.txt\<close>, which
  uploads it too, is still running: two of the three running threads work on
  \<open>d/f.txt\<close>, and what \<open>_handle_event\<close> and \<open>_handle_child\<close> send for that path
  is the same upload.
\<close>

theorem new_tree_counterexample:
  "map_option running_paths (threads_run tree_fs [''sync''] 1 new_tree no_threads)
     = Some [[''sync'', ''d'', ''f.txt''], [''sync'', ''d''], [''sync'', ''d'', ''f.txt'']]
   \<and> handle_event (docs_remote 0) tree_fs [''sync''] added [''sync'', ''d'', ''f.txt''] ()
       = (Returns, [Call (Post_upload ''d/f.txt'' (Some ''data'') False) (Response 200 []),
                    Print (Synchronized ''d/f.txt'')], ())
   \<and> handle_child (docs_remote 0) tree_fs [''sync''] [''sync'', ''d'', ''f.txt''] ()
       = ([Call (Post_upload ''d/f.txt'' (Some ''data'') False) (Response 200 []),
           Print (Synchronized ''d/f.txt'')], ())"
  by (simp add: new_tree_def no_threads_def tree_fs_def watch_batch_def process_ready_def
        start_threads_def fans_out_def relative_to_def running_paths_def
        handle_event_def handle_child_def client_upload_file_def rel_str_def docs_remote_def)

text \<open>
  C2 (amended): in every state that any interleaving of recorded batches, drains, starts
  of child threads and returns of threads can reach from the start of the client, no two
  of the running threads that the processing loop started (the threads of
  \<open>_handle_event\<close>) work on the same path. The child threads of a directory
  (\<open>_handle_child\<close>) are not covered: one of them can work on a path while the event
  thread of that path is running.
\<close>

theorem event_threads_exclusive:
  assumes "threads_run lfs sync_folder debounce moves no_threads = Some st"
  shows "distinct (event_paths st)"
  using threads_run_exclusive[OF assms] by (simp add: no_threads_def event_paths_def)

theorem event_threads_exclusive_witness:
  "threads_run tree_fs [''sync''] 1 delete_during_upload no_threads
     = Some \<lparr>pending = [], running = [Event_task deleted [''sync'', ''old.txt''] Working]\<rparr>
   \<and> distinct (event_paths \<lparr>pending = [], running = [Event_task deleted [''sync'', ''old.txt''] Working]\<rparr>)
   \<and> threads_run tree_fs [''sync''] 1 (take 3 delete_during_upload @ [Drain 3]) no_threads = None"
proof -
  have h: "threads_run tree_fs [''sync''] 1 delete_during_upload no_threads
     = Some \<lparr>pending = [], running = [Event_task deleted [''sync'', ''old.txt''] Working]\<rparr>"
    by (simp add: delete_during_upload_def no_threads_def tree_fs_def watch_batch_def process_ready_def
        start_threads_def fans_out_def relative_to_def)
  have b: "threads_run tree_fs [''sync''] 1 (take 3 delete_during_upload @ [Drain 3]) no_threads = None"
    by (simp add: delete_during_upload_def no_threads_def tree_fs_def watch_batch_def process_ready_def
        start_threads_def)
  note t = event_threads_exclusive[OF h]
  from h t b show ?thesis by (intro conjI)
qed

end
